theory Spec2Isabelle
  imports Complex_Main
begin

section \<open>Parallel quadruple-root calculator: the embedding\<close>

text \<open>
  The program (\<^verbatim>\<open>Para_Q_Root_calc.c\<close>) sums the fourth roots of \<open>1..n\<close> with \<open>m\<close> POSIX
  threads. Every thread runs \<^verbatim>\<open>compute_quadruple_roots\<close>: it sums its own sub-range into its
  slot of the shared array \<^verbatim>\<open>partial_sums\<close> (phase 1) and then takes part in a tree
  reduction whose rounds are separated by a barrier (phase 2).

  Modelling decisions.
  \<^item> A C \<^verbatim>\<open>int\<close> is an \<open>int\<close> of HOL together with the range check \<open>in_int\<close>: an operation
    whose mathematical result leaves \<open>[INT_MIN, INT_MAX]\<close> is undefined behaviour in C and
    is the value \<open>Inl SignedOverflow\<close> here. Division and remainder truncate towards zero.
  \<^item> A \<^verbatim>\<open>double\<close> is a \<open>real\<close>: addition and \<^verbatim>\<open>pow\<close> are exact, rounding is outside the
    model. No branch and no index of the program depends on a \<^verbatim>\<open>double\<close>, so faults, rounds
    and the slots that are combined are those of the program; the values are idealised,
    and no statement here bounds a rounding error.
  \<^item> \<^verbatim>\<open>partial_sums\<close> is a \<open>real list\<close> whose length is the number of allocated slots; a
    read or write outside it is \<open>Inl OutOfBounds\<close>.
  \<^item> The barrier makes the threads proceed in lockstep: between two barrier waits every
    thread executes one section of its code. Such a section is a function from the
    shared array to the shared array, and the sections of the threads are run one after
    the other in the order of a schedule.
\<close>

subsection \<open>C integers\<close>

definition INT_MAX :: int where
  "INT_MAX = 2147483647"

definition INT_MIN :: int where
  "INT_MIN = - 2147483648"

datatype fault = SignedOverflow | DivisionByZero | OutOfBounds

definition in_int :: "int \<Rightarrow> bool" where
  "in_int x \<longleftrightarrow> INT_MIN \<le> x \<and> x \<le> INT_MAX"

text \<open>The operators \<^verbatim>\<open>/\<close> and \<^verbatim>\<open>%\<close> of C on \<^verbatim>\<open>int\<close>, for a divisor that is not zero.\<close>

definition c_div :: "int \<Rightarrow> int \<Rightarrow> int" where
  "c_div a b = sgn a * sgn b * (\<bar>a\<bar> div \<bar>b\<bar>)"

definition c_mod :: "int \<Rightarrow> int \<Rightarrow> int" where
  "c_mod a b = sgn a * (\<bar>a\<bar> mod \<bar>b\<bar>)"

subsection \<open>The shared array\<close>

definition load :: "real list \<Rightarrow> int \<Rightarrow> fault + real" where
  "load ps i = (if 0 \<le> i \<and> i < int (length ps) then Inr (ps ! nat i) else Inl OutOfBounds)"

definition store :: "real list \<Rightarrow> int \<Rightarrow> real \<Rightarrow> fault + real list" where
  "store ps i v = (if 0 \<le> i \<and> i < int (length ps) then Inr (ps[nat i := v]) else Inl OutOfBounds)"

subsection \<open>Phase 1: the range of a thread and its local sum\<close>

record ThreadArgs =
  thread_id :: int
  total_threads :: int
  max_number :: int

text \<open>
  Lines 32 to 38: \<^verbatim>\<open>start = tid * (n / m) + 1\<close>, \<^verbatim>\<open>end = (tid + 1) * (n / m)\<close>, and
  \<^verbatim>\<open>end = n\<close> for the thread with \<^verbatim>\<open>tid == m - 1\<close>.
\<close>

definition work_range :: "int \<Rightarrow> int \<Rightarrow> int \<Rightarrow> fault + (int \<times> int)" where
  "work_range tid m n =
     (if m = 0 then Inl DivisionByZero
      else
        let q = c_div n m in
        if in_int q \<and> in_int (tid * q) \<and> in_int (tid * q + 1) \<and> in_int (tid + 1)
           \<and> in_int ((tid + 1) * q) \<and> in_int (m - 1)
        then Inr (tid * q + 1, if tid = m - 1 then n else (tid + 1) * q)
        else Inl SignedOverflow)"

text \<open>\<^verbatim>\<open>pow(i, 0.25)\<close>, the fourth root of \<open>i\<close>.\<close>

definition pow_quarter :: "int \<Rightarrow> real" where
  "pow_quarter i = real_of_int i powr (1 / 4)"

text \<open>
  Lines 41 to 44: \<^verbatim>\<open>for (int i = start; i <= end; i++) local_sum += pow(i, 0.25);\<close>
  The increment of \<open>i = INT_MAX\<close> overflows.
\<close>

function sum_loop :: "int \<Rightarrow> int \<Rightarrow> real \<Rightarrow> fault + real" where
  "sum_loop i e local_sum =
     (if i \<le> e then
        (if in_int (i + 1) then sum_loop (i + 1) e (local_sum + pow_quarter i)
         else Inl SignedOverflow)
      else Inr local_sum)"
  by pat_completeness auto
termination
  by (relation "measure (\<lambda>(i, e, s). nat (e + 1 - i))") auto

text \<open>Lines 32 to 47 for one thread: the range, the loop, and \<^verbatim>\<open>partial_sums[tid] = local_sum\<close>.\<close>

definition phase1_thread :: "int \<Rightarrow> int \<Rightarrow> int \<Rightarrow> real list \<Rightarrow> fault + real list" where
  "phase1_thread m n tid ps =
     (case work_range tid m n of
        Inl f \<Rightarrow> Inl f
      | Inr (start, end) \<Rightarrow>
          (case sum_loop start end 0 of
             Inl f \<Rightarrow> Inl f
           | Inr local_sum \<Rightarrow> store ps tid local_sum))"

text \<open>The sections of the threads of a schedule, one after the other; a fault stops the run.\<close>

fun run_threads ::
  "(int \<Rightarrow> real list \<Rightarrow> fault + real list) \<Rightarrow> int list \<Rightarrow> real list \<Rightarrow> fault + real list" where
  "run_threads body [] ps = Inr ps"
| "run_threads body (tid # tids) ps =
     (case body tid ps of Inl f \<Rightarrow> Inl f | Inr ps' \<Rightarrow> run_threads body tids ps')"

text \<open>Threads \<open>0\<close> to \<open>m - 1\<close>, in the order in which \<^verbatim>\<open>main\<close> creates them.\<close>

definition thread_ids :: "int \<Rightarrow> int list" where
  "thread_ids m = [0..m - 1]"

definition phase1 :: "int \<Rightarrow> int \<Rightarrow> real list \<Rightarrow> fault + real list" where
  "phase1 m n ps = run_threads (phase1_thread m n) (thread_ids m) ps"

subsection \<open>Phase 2: the tree reduction\<close>

text \<open>
  Lines 70 to 80, the section of thread \<open>tid\<close> in the round with step \<open>step\<close>:
  \<^verbatim>\<open>if (tid % (2 * step) == 0) if (tid + step < m) partial_sums[tid] += partial_sums[tid + step];\<close>
\<close>

definition reduce_thread :: "int \<Rightarrow> int \<Rightarrow> int \<Rightarrow> real list \<Rightarrow> fault + real list" where
  "reduce_thread m step tid ps =
     (if \<not> in_int (2 * step) then Inl SignedOverflow
      else if 2 * step = 0 then Inl DivisionByZero
      else if c_mod tid (2 * step) = 0 then
        (if \<not> in_int (tid + step) then Inl SignedOverflow
         else if tid + step < m then
           (case load ps tid of
              Inl f \<Rightarrow> Inl f
            | Inr a \<Rightarrow>
                (case load ps (tid + step) of
                   Inl f \<Rightarrow> Inl f
                 | Inr b \<Rightarrow> store ps tid (a + b)))
         else Inr ps)
      else Inr ps)"

text \<open>
  The state of the loop of lines 67 to 86: the value of \<^verbatim>\<open>step\<close> (the same in every
  thread), the number of rounds executed so far (a counter that the program does not
  have), and the shared array.
\<close>

type_synonym loop_state = "int \<times> nat \<times> real list"

text \<open>One round: every thread runs lines 70 to 80, then \<^verbatim>\<open>step *= 2\<close>, then the barrier.\<close>

definition reduction_round :: "int \<Rightarrow> loop_state \<Rightarrow> fault + loop_state" where
  "reduction_round m st =
     (case st of (step, rounds, ps) \<Rightarrow>
        (case run_threads (reduce_thread m step) (thread_ids m) ps of
           Inl f \<Rightarrow> Inl f
         | Inr ps' \<Rightarrow>
             if in_int (step * 2) then Inr (step * 2, Suc rounds, ps')
             else Inl SignedOverflow))"

text \<open>
  Lines 67 to 86: \<^verbatim>\<open>int step = 1; while (step < m) { ... step *= 2; barrier }\<close>. The loop is
  total: a positive step grows towards \<open>m\<close>, a step of zero stops thread \<open>0\<close> at the
  remainder, and a negative step falls below \<open>INT_MIN\<close>.
\<close>

function reduction_loop :: "int \<Rightarrow> loop_state \<Rightarrow> fault + loop_state" where
  "reduction_loop m st =
     (if fst st < m then
        (case reduction_round m st of
           Inl f \<Rightarrow> Inl f
         | Inr st' \<Rightarrow> reduction_loop m st')
      else Inr st)"
  by pat_completeness auto
termination
proof (relation "measure (\<lambda>(m, st). if 0 < fst st then nat (m - fst st) else nat (fst st - INT_MIN))")
  show "wf (measure (\<lambda>(m, st). if 0 < fst st then nat (m - fst st) else nat (fst st - INT_MIN)))"
    by simp
next
  fix m :: int and st st' :: loop_state
  assume lt: "fst st < m" and r: "reduction_round m st = Inr st'"
  obtain step rounds ps where st: "st = (step, rounds, ps)"
    by (cases st)
  from r st obtain ps' where run: "run_threads (reduce_thread m step) (thread_ids m) ps = Inr ps'"
    and ok: "in_int (step * 2)" and st': "st' = (step * 2, Suc rounds, ps')"
    by (auto simp: reduction_round_def split: sum.splits if_splits)
  have "step \<noteq> 0"
  proof
    assume z: "step = 0"
    with lt st have "0 < m" by simp
    then have "thread_ids m = 0 # [1..m - 1]"
      by (simp add: thread_ids_def upto_rec1 [of 0])
    with run z show False
      by (simp add: reduce_thread_def in_int_def INT_MIN_def INT_MAX_def)
  qed
  with lt st st' ok
  show "((m, st'), (m, st)) \<in> measure (\<lambda>(m, st). if 0 < fst st then nat (m - fst st) else nat (fst st - INT_MIN))"
    by (auto simp: in_int_def)
qed

text \<open>The first \<open>k\<close> iterations of the same loop: the state in which round \<open>k\<close> starts.\<close>

fun run_rounds :: "nat \<Rightarrow> int \<Rightarrow> loop_state \<Rightarrow> fault + loop_state" where
  "run_rounds 0 m st = Inr st"
| "run_rounds (Suc k) m st =
     (if fst st < m then
        (case reduction_round m st of
           Inl f \<Rightarrow> Inl f
         | Inr st' \<Rightarrow> run_rounds k m st')
      else Inr st)"

text \<open>
  All \<open>m\<close> threads running \<^verbatim>\<open>compute_quadruple_roots\<close> on the array \<open>ps\<close>: phase 1, the
  barrier, the reduction loop.
\<close>

definition compute_quadruple_roots :: "int \<Rightarrow> int \<Rightarrow> real list \<Rightarrow> fault + loop_state" where
  "compute_quadruple_roots m n ps =
     (case phase1 m n ps of
        Inl f \<Rightarrow> Inl f
      | Inr ps1 \<Rightarrow> reduction_loop m (1, 0, ps1))"

text \<open>Line 91: the value of \<^verbatim>\<open>partial_sums[0]\<close> that thread \<open>0\<close> reports as the total.\<close>

definition compute :: "int \<Rightarrow> int \<Rightarrow> real list \<Rightarrow> fault + real" where
  "compute m n ps =
     (case compute_quadruple_roots m n ps of
        Inl f \<Rightarrow> Inl f
      | Inr (step, rounds, ps') \<Rightarrow> load ps' 0)"

subsection \<open>The driver\<close>

text \<open>
  \<^verbatim>\<open>main\<close> from line 107 on, after \<^verbatim>\<open>atoi\<close>. What the operating system decides is an
  argument: whether each \<^verbatim>\<open>malloc\<close> and each \<^verbatim>\<open>pthread_create\<close> succeeds, and what the new
  array holds. The result is the exit status and the sequence of resource events;
  of the output only the error messages and the total are kept.
\<close>

datatype resource = Table | Handles | Args

datatype diagnostic = NotPositive | AllocationFailed | CreateFailed int

datatype event =
    Stderr diagnostic
  | Malloc resource
  | Free resource
  | BarrierInit int
  | BarrierDestroy
  | Create ThreadArgs
  | Join int
  | Total real

record environment =
  table_ok :: bool
  handles_ok :: bool
  args_ok :: bool
  create_ok :: "int \<Rightarrow> bool"
  fresh_cell :: "nat \<Rightarrow> real"

text \<open>Lines 140 to 152: the threads created, and the index at which creation failed.\<close>

fun create_threads :: "(int \<Rightarrow> bool) \<Rightarrow> int \<Rightarrow> int \<Rightarrow> int list \<Rightarrow> event list \<times> int option" where
  "create_threads ok m n [] = ([], None)"
| "create_threads ok m n (i # rest) =
     (if ok i then
        (case create_threads ok m n rest of
           (created, failed) \<Rightarrow>
             (Create \<lparr>thread_id = i, total_threads = m, max_number = n\<rparr> # created, failed))
      else ([], Some i))"

definition main :: "environment \<Rightarrow> int \<Rightarrow> int \<Rightarrow> fault + (int \<times> event list)" where
  "main env m n =
     (if m \<le> 0 \<or> n \<le> 0 then Inr (1, [Stderr NotPositive])
      else if \<not> table_ok env then Inr (1, [Stderr AllocationFailed])
      else if \<not> handles_ok env \<or> \<not> args_ok env then
        Inr (1, [Malloc Table, BarrierInit m]
                @ (if handles_ok env then [Malloc Handles] else [])
                @ (if args_ok env then [Malloc Args] else [])
                @ [Stderr AllocationFailed, Free Table])
      else
        (case create_threads (create_ok env) m n (thread_ids m) of
           (created, Some i) \<Rightarrow>
             Inr (1, [Malloc Table, BarrierInit m, Malloc Handles, Malloc Args] @ created
                     @ [Stderr (CreateFailed i), Free Table, Free Handles, Free Args])
         | (created, None) \<Rightarrow>
             (case compute m n (map (fresh_cell env) [0..<nat m]) of
                Inl f \<Rightarrow> Inl f
              | Inr sum0 \<Rightarrow>
                  Inr (0, [Malloc Table, BarrierInit m, Malloc Handles, Malloc Args] @ created
                          @ [Total sum0] @ map Join (thread_ids m)
                          @ [BarrierDestroy, Free Table, Free Handles, Free Args]))))"

text \<open>
  What a trace leaves behind: a barrier that was initialised and never destroyed,
  memory that was allocated and never freed, and threads that were created and never
  joined.
\<close>

definition barrier_leaked :: "event list \<Rightarrow> bool" where
  "barrier_leaked tr \<longleftrightarrow> [k. BarrierInit k \<leftarrow> tr] \<noteq> [] \<and> BarrierDestroy \<notin> set tr"

definition unfreed :: "event list \<Rightarrow> resource list" where
  "unfreed tr = [r. Malloc r \<leftarrow> tr, Free r \<notin> set tr]"

definition unjoined :: "event list \<Rightarrow> int list" where
  "unjoined tr =
     [thread_id a. Create a \<leftarrow> tr, Join (thread_id a) \<notin> set tr]"

subsection \<open>Notions used in the statements\<close>

text \<open>The integers that thread \<open>tid\<close> sums: the inclusive range of lines 32 to 38.\<close>

definition slice :: "int \<Rightarrow> int \<Rightarrow> int \<Rightarrow> int set" where
  "slice tid m n = (case work_range tid m n of Inl f \<Rightarrow> {} | Inr (start, end) \<Rightarrow> {start..end})"

text \<open>The sequential reference sum of the specification: the sum of \<open>i^0.25\<close> for \<open>i\<close> in \<open>[1, n]\<close>.\<close>

definition reference_sum :: "int \<Rightarrow> real" where
  "reference_sum n = (\<Sum>i\<in>{1..n}. pow_quarter i)"

text \<open>
  The two tests of lines 70 and 72: thread \<open>tid\<close> adds its partner's slot to its own in
  the round with step \<open>step\<close>.
\<close>

definition combines :: "int \<Rightarrow> int \<Rightarrow> int \<Rightarrow> bool" where
  "combines m step tid \<longleftrightarrow> c_mod tid (2 * step) = 0 \<and> tid + step < m"

text \<open>The slots that line 73 writes and the slots of other threads that it reads.\<close>

definition write_slots :: "int \<Rightarrow> int \<Rightarrow> int \<Rightarrow> int set" where
  "write_slots m step tid = (if combines m step tid then {tid} else {})"

definition read_slots :: "int \<Rightarrow> int \<Rightarrow> int \<Rightarrow> int set" where
  "read_slots m step tid = (if combines m step tid then {tid + step} else {})"

text \<open>
  The invariant of the reduction: with block size \<open>s\<close>, every slot \<open>j\<close> that is a multiple
  of \<open>s\<close> holds the sum of the phase-1 values \<open>ps0\<close> of the threads \<open>j\<close> to \<open>j + s - 1\<close>,
  clipped to \<open>m\<close>.
\<close>

definition block_inv :: "int \<Rightarrow> int \<Rightarrow> real list \<Rightarrow> real list \<Rightarrow> bool" where
  "block_inv m s ps0 ps \<longleftrightarrow>
     length ps = nat m \<and>
     (\<forall>j\<in>{0..<m}. j mod s = 0 \<longrightarrow> ps ! nat j = (\<Sum>i\<in>{j..<min (j + s) m}. ps0 ! nat i))"

text \<open>
  Three environments: every request succeeds; the second thread cannot be created; the
  array of thread handles cannot be allocated.
\<close>

definition all_ok :: environment where
  "all_ok = \<lparr>table_ok = True, handles_ok = True, args_ok = True,
              create_ok = (\<lambda>i. True), fresh_cell = (\<lambda>k. 0)\<rparr>"

definition second_create_fails :: environment where
  "second_create_fails = all_ok\<lparr>create_ok := (\<lambda>i. i \<noteq> 1)\<rparr>"

definition handles_alloc_fails :: environment where
  "handles_alloc_fails = all_ok\<lparr>handles_ok := False\<rparr>"

section \<open>Arithmetic of C integers\<close>

lemma c_div_nonneg: "0 \<le> a \<Longrightarrow> 0 < b \<Longrightarrow> c_div a b = a div b"
  by (cases "a = 0") (simp_all add: c_div_def)

lemma c_mod_nonneg: "0 \<le> a \<Longrightarrow> 0 < b \<Longrightarrow> c_mod a b = a mod b"
  by (cases "a = 0") (simp_all add: c_mod_def)

lemma quotient_bounds:
  fixes m n :: int
  assumes "1 \<le> m" "1 \<le> n"
  shows "0 \<le> n div m" and "m * (n div m) \<le> n"
proof -
  have "0 < m" using assms by simp
  then show "0 \<le> n div m" using assms by (simp add: pos_imp_zdiv_nonneg_iff)
  have "m * (n div m) + n mod m = n" by simp
  moreover have "0 \<le> n mod m" using assms by simp
  ultimately show "m * (n div m) \<le> n" by linarith
qed

lemma scaled_quotient_le:
  fixes m n t :: int
  assumes "1 \<le> m" "1 \<le> n" "0 \<le> t" "t \<le> m"
  shows "t * (n div m) \<le> n" and "0 \<le> t * (n div m)"
proof -
  have q: "0 \<le> n div m" using quotient_bounds(1) [OF assms(1,2)] .
  have "t * (n div m) \<le> m * (n div m)"
    using assms q by (simp add: mult_right_mono)
  also have "\<dots> \<le> n" using quotient_bounds(2) [OF assms(1,2)] .
  finally show "t * (n div m) \<le> n" .
  show "0 \<le> t * (n div m)" using assms q by simp
qed

lemma start_le:
  fixes m n tid :: int
  assumes "1 \<le> m" "1 \<le> n" "0 \<le> tid" "tid < m"
  shows "tid * (n div m) + 1 \<le> n"
proof (cases "n div m = 0")
  case True
  then show ?thesis using assms by simp
next
  case False
  with quotient_bounds(1) [OF assms(1,2)] have "1 \<le> n div m" by simp
  then have "tid * (n div m) + 1 \<le> tid * (n div m) + n div m" by simp
  also have "\<dots> = (tid + 1) * (n div m)" by (simp add: algebra_simps)
  also have "\<dots> \<le> n" using scaled_quotient_le(1) [OF assms(1,2), of "tid + 1"] assms by simp
  finally show ?thesis .
qed

lemma work_range_value:
  assumes "1 \<le> m" "1 \<le> n" "n \<le> INT_MAX" "m \<le> INT_MAX" "0 \<le> tid" "tid < m"
  shows "work_range tid m n =
           Inr (tid * (n div m) + 1, if tid = m - 1 then n else (tid + 1) * (n div m))"
proof -
  have q: "c_div n m = n div m" using assms by (simp add: c_div_nonneg)
  have a: "0 \<le> n div m" "n div m \<le> n"
    using quotient_bounds(1) [OF assms(1,2)] scaled_quotient_le(1) [OF assms(1,2), of 1] assms(1)
    by simp_all
  have b: "0 \<le> tid * (n div m)" "tid * (n div m) \<le> n"
    using scaled_quotient_le [OF assms(1,2), of tid] assms by simp_all
  have c: "0 \<le> (tid + 1) * (n div m)" "(tid + 1) * (n div m) \<le> n"
    using scaled_quotient_le [OF assms(1,2), of "tid + 1"] assms by simp_all
  have d: "tid * (n div m) + 1 \<le> n"
    using start_le [OF assms(1,2,5,6)] .
  have "in_int (n div m)" "in_int (tid * (n div m))" "in_int (tid * (n div m) + 1)"
    "in_int (tid + 1)" "in_int ((tid + 1) * (n div m))" "in_int (m - 1)"
    unfolding in_int_def INT_MIN_def
    using assms a b c d by linarith+
  then show ?thesis using assms q by (simp add: work_range_def Let_def)
qed

lemma int_ivl_head: "i \<le> e \<Longrightarrow> {i..e} = insert i {i + 1..e}" for i e :: int
  by auto

lemma sum_loop_value:
  "e < INT_MAX \<Longrightarrow> INT_MIN \<le> i + 1 \<Longrightarrow>
     sum_loop i e acc = Inr (acc + (\<Sum>k\<in>{i..e}. pow_quarter k))"
proof (induction i e acc rule: sum_loop.induct)
  case (1 i e acc)
  show ?case
  proof (cases "i \<le> e")
    case True
    with "1.prems" have ok: "in_int (i + 1)"
      by (simp add: in_int_def)
    have "sum_loop (i + 1) e (acc + pow_quarter i)
            = Inr (acc + pow_quarter i + (\<Sum>k\<in>{i + 1..e}. pow_quarter k))"
      using "1.IH" [OF True ok] "1.prems" by simp
    moreover have "(\<Sum>k\<in>{i..e}. pow_quarter k) = pow_quarter i + (\<Sum>k\<in>{i + 1..e}. pow_quarter k)"
      by (subst int_ivl_head [OF True]) simp
    ultimately show ?thesis using True ok
      by (subst sum_loop.simps) simp
  next
    case False
    then show ?thesis by (subst sum_loop.simps) simp
  qed
qed

lemma sum_loop_overflow:
  "i \<le> e \<Longrightarrow> INT_MAX \<le> e \<Longrightarrow> sum_loop i e acc = Inl SignedOverflow"
proof (induction i e acc rule: sum_loop.induct)
  case (1 i e acc)
  show ?case
  proof (cases "in_int (i + 1)")
    case True
    then have "i + 1 \<le> e" using "1.prems" by (simp add: in_int_def)
    from "1.IH" [OF "1.prems"(1) True this "1.prems"(2)] True "1.prems" show ?thesis
      by (subst sum_loop.simps) simp
  next
    case False
    with "1.prems" show ?thesis by (subst sum_loop.simps) simp
  qed
qed

section \<open>Phase 1\<close>

lemma slice_value:
  assumes "1 \<le> m" "1 \<le> n" "n \<le> INT_MAX" "m \<le> INT_MAX" "0 \<le> tid" "tid < m"
  shows "slice tid m n = {tid * (n div m) + 1..if tid = m - 1 then n else (tid + 1) * (n div m)}"
  by (simp add: slice_def work_range_value [OF assms])

lemma phase1_thread_value:
  assumes "1 \<le> m" "1 \<le> n" "n < INT_MAX" "m \<le> INT_MAX" "0 \<le> tid" "tid < m"
    and "length ps = nat m"
  shows "phase1_thread m n tid ps = Inr (ps[nat tid := sum pow_quarter (slice tid m n)])"
proof -
  have n: "n \<le> INT_MAX" using assms by simp
  note wr = work_range_value [OF assms(1,2) n assms(4,5,6)]
  define e where "e = (if tid = m - 1 then n else (tid + 1) * (n div m))"
  have "e \<le> n"
    using scaled_quotient_le(1) [OF assms(1,2), of "tid + 1"] assms by (simp add: e_def)
  then have e: "e < INT_MAX" using assms by simp
  have s: "INT_MIN \<le> tid * (n div m) + 1 + 1"
    using scaled_quotient_le(2) [OF assms(1,2), of tid] assms by (simp add: INT_MIN_def)
  have "sum_loop (tid * (n div m) + 1) e 0 = Inr (sum pow_quarter {tid * (n div m) + 1..e})"
    using sum_loop_value [OF e s, of 0] by simp
  moreover have "slice tid m n = {tid * (n div m) + 1..e}"
    using slice_value [OF assms(1,2) n assms(4,5,6)] by (simp add: e_def)
  ultimately show ?thesis
    using wr assms by (simp add: phase1_thread_def e_def store_def)
qed

lemma phase1_threads:
  assumes "1 \<le> m" "1 \<le> n" "n < INT_MAX" "m \<le> INT_MAX"
  shows "distinct ts \<Longrightarrow> set ts \<subseteq> {0..<m} \<Longrightarrow> length ps = nat m \<Longrightarrow>
    \<exists>ps'. run_threads (phase1_thread m n) ts ps = Inr ps' \<and> length ps' = nat m \<and>
      (\<forall>j\<in>{0..<m}. ps' ! nat j = (if j \<in> set ts then sum pow_quarter (slice j m n) else ps ! nat j))"
proof (induction ts arbitrary: ps)
  case Nil
  then show ?case by simp
next
  case (Cons t ts)
  let ?ps1 = "ps[nat t := sum pow_quarter (slice t m n)]"
  from Cons.prems have t: "0 \<le> t" "t < m" "t \<notin> set ts" by simp_all
  have step: "phase1_thread m n t ps = Inr ?ps1"
    using phase1_thread_value [OF assms t(1,2) Cons.prems(3)] .
  from Cons.prems have "distinct ts" "set ts \<subseteq> {0..<m}" "length ?ps1 = nat m" by simp_all
  from Cons.IH [OF this] obtain ps' where
    run: "run_threads (phase1_thread m n) ts ?ps1 = Inr ps'" and len: "length ps' = nat m"
    and val: "\<forall>j\<in>{0..<m}. ps' ! nat j = (if j \<in> set ts then sum pow_quarter (slice j m n) else ?ps1 ! nat j)"
    by blast
  have "\<forall>j\<in>{0..<m}. ps' ! nat j = (if j \<in> set (t # ts) then sum pow_quarter (slice j m n) else ps ! nat j)"
  proof
    fix j assume j: "j \<in> {0..<m}"
    show "ps' ! nat j = (if j \<in> set (t # ts) then sum pow_quarter (slice j m n) else ps ! nat j)"
    proof (cases "j = t")
      case True
      with val j t Cons.prems(3) show ?thesis by simp
    next
      case False
      with j t have "nat j \<noteq> nat t" by (simp add: nat_eq_iff)
      with val j False show ?thesis by simp
    qed
  qed
  with step run len show ?case by simp
qed

lemma phase1_value:
  assumes "1 \<le> m" "1 \<le> n" "n < INT_MAX" "m \<le> INT_MAX" "length ps = nat m"
  shows "\<exists>ps'. phase1 m n ps = Inr ps' \<and> length ps' = nat m \<and>
      (\<forall>j\<in>{0..<m}. ps' ! nat j = sum pow_quarter (slice j m n))"
proof -
  have "distinct (thread_ids m)" "set (thread_ids m) \<subseteq> {0..<m}"
    by (auto simp: thread_ids_def)
  from phase1_threads [OF assms(1-4) this assms(5)] show ?thesis
    by (auto simp: phase1_def thread_ids_def)
qed

text \<open>
  In phase 1 every thread writes its own slot only, so the order of the threads is
  irrelevant here too.
\<close>

lemma phase1_schedule_irrelevant:
  assumes "1 \<le> m" "1 \<le> n" "n < INT_MAX" "m \<le> INT_MAX" "length ps = nat m"
    and "distinct ts" "set ts = {0..<m}"
  shows "run_threads (phase1_thread m n) ts ps = phase1 m n ps"
proof -
  from assms(7) have sub: "set ts \<subseteq> {0..<m}" by simp
  from phase1_threads [OF assms(1-4) assms(6) sub assms(5)] obtain p1 where
    p1: "run_threads (phase1_thread m n) ts ps = Inr p1" "length p1 = nat m"
    "\<forall>j\<in>{0..<m}. p1 ! nat j = (if j \<in> set ts then sum pow_quarter (slice j m n) else ps ! nat j)"
    by blast
  from phase1_value [OF assms(1-5)] obtain p2 where
    p2: "phase1 m n ps = Inr p2" "length p2 = nat m"
    "\<forall>j\<in>{0..<m}. p2 ! nat j = sum pow_quarter (slice j m n)"
    by blast
  have "p1 = p2"
  proof (rule nth_equalityI)
    show "length p1 = length p2" using p1(2) p2(2) by simp
  next
    fix i assume "i < length p1"
    with p1(2) have i: "int i \<in> {0..<m}" by auto
    from p1(3) [THEN bspec, OF i] p2(3) [THEN bspec, OF i] assms(7) i
    show "p1 ! i = p2 ! i" by simp
  qed
  with p1(1) p2(1) show ?thesis by simp
qed

section \<open>The partition of the work\<close>

lemma ivl_glue: "0 \<le> a \<Longrightarrow> a \<le> b \<Longrightarrow> {a + 1..b} \<union> {1..a} = {1..b}" for a b :: int
  by auto

lemma prefix_union:
  fixes q :: int
  assumes "0 \<le> q"
  shows "(\<Union>j\<in>{0..<int t}. {j * q + 1..(j + 1) * q}) = {1..int t * q}"
proof (induction t)
  case 0
  then show ?case by simp
next
  case (Suc t)
  have "{0..<int (Suc t)} = insert (int t) {0..<int t}" by auto
  then have "(\<Union>j\<in>{0..<int (Suc t)}. {j * q + 1..(j + 1) * q})
      = {int t * q + 1..(int t + 1) * q} \<union> {1..int t * q}"
    using Suc.IH by simp
  also have "\<dots> = {1..(int t + 1) * q}"
  proof -
    have "0 \<le> int t * q" using assms by simp
    moreover have "int t * q \<le> (int t + 1) * q" using assms by (simp add: algebra_simps)
    ultimately show ?thesis by (rule ivl_glue)
  qed
  also have "(int t + 1) * q = int (Suc t) * q" by simp
  finally show ?case .
qed

lemma prefix_sum:
  fixes q :: int and f :: "int \<Rightarrow> real"
  assumes "0 \<le> q"
  shows "(\<Sum>j\<in>{0..<int t}. sum f {j * q + 1..(j + 1) * q}) = sum f {1..int t * q}"
proof (induction t)
  case 0
  then show ?case by simp
next
  case (Suc t)
  have a: "0 \<le> int t * q" using assms by simp
  have b: "int t * q \<le> (int t + 1) * q" using assms by (simp add: algebra_simps)
  have "{0..<int (Suc t)} = insert (int t) {0..<int t}" by auto
  then have "(\<Sum>j\<in>{0..<int (Suc t)}. sum f {j * q + 1..(j + 1) * q})
      = sum f {int t * q + 1..(int t + 1) * q} + sum f {1..int t * q}"
    using Suc.IH by simp
  also have "\<dots> = sum f ({int t * q + 1..(int t + 1) * q} \<union> {1..int t * q})"
    by (rule sum.union_disjoint [symmetric]) auto
  also have "{int t * q + 1..(int t + 1) * q} \<union> {1..int t * q} = {1..(int t + 1) * q}"
    using a b by (rule ivl_glue)
  also have "(int t + 1) * q = int (Suc t) * q" by simp
  finally show ?case .
qed

lemma slices_union:
  assumes "1 \<le> m" "1 \<le> n" "n \<le> INT_MAX" "m \<le> INT_MAX"
  shows "(\<Union>tid\<in>{0..<m}. slice tid m n) = {1..n}"
proof -
  define q where "q = n div m"
  have q: "0 \<le> q" "(m - 1) * q \<le> n" "0 \<le> (m - 1) * q"
    using quotient_bounds(1) [OF assms(1,2)] scaled_quotient_le [OF assms(1,2), of "m - 1"] assms(1)
    by (simp_all add: q_def)
  have split: "{0..<m} = insert (m - 1) {0..<m - 1}" using assms by auto
  have "(\<Union>tid\<in>{0..<m - 1}. slice tid m n) = (\<Union>j\<in>{0..<m - 1}. {j * q + 1..(j + 1) * q})"
    using assms by (intro SUP_cong refl) (simp add: slice_value q_def)
  also have "\<dots> = {1..(m - 1) * q}"
    using prefix_union [OF q(1), of "nat (m - 1)"] assms by simp
  finally have pre: "(\<Union>tid\<in>{0..<m - 1}. slice tid m n) = {1..(m - 1) * q}" .
  have last: "slice (m - 1) m n = {(m - 1) * q + 1..n}"
    using assms by (simp add: slice_value q_def)
  have "(\<Union>tid\<in>{0..<m}. slice tid m n) = {(m - 1) * q + 1..n} \<union> {1..(m - 1) * q}"
    by (subst split) (simp add: pre last)
  also have "\<dots> = {1..n}" using q(3,2) by (rule ivl_glue)
  finally show ?thesis .
qed

lemma slices_sum:
  fixes f :: "int \<Rightarrow> real"
  assumes "1 \<le> m" "1 \<le> n" "n \<le> INT_MAX" "m \<le> INT_MAX"
  shows "(\<Sum>tid\<in>{0..<m}. sum f (slice tid m n)) = sum f {1..n}"
proof -
  define q where "q = n div m"
  have q: "0 \<le> q" "(m - 1) * q \<le> n" "0 \<le> (m - 1) * q"
    using quotient_bounds(1) [OF assms(1,2)] scaled_quotient_le [OF assms(1,2), of "m - 1"] assms(1)
    by (simp_all add: q_def)
  have split: "{0..<m} = insert (m - 1) {0..<m - 1}" using assms by auto
  have "(\<Sum>tid\<in>{0..<m - 1}. sum f (slice tid m n)) = (\<Sum>j\<in>{0..<m - 1}. sum f {j * q + 1..(j + 1) * q})"
    using assms by (intro sum.cong refl) (simp add: slice_value q_def)
  also have "\<dots> = sum f {1..(m - 1) * q}"
    using prefix_sum [OF q(1), where t = "nat (m - 1)" and f = f] assms by simp
  finally have pre: "(\<Sum>tid\<in>{0..<m - 1}. sum f (slice tid m n)) = sum f {1..(m - 1) * q}" .
  have last: "slice (m - 1) m n = {(m - 1) * q + 1..n}"
    using assms by (simp add: slice_value q_def)
  have "(\<Sum>tid\<in>{0..<m}. sum f (slice tid m n)) = sum f {(m - 1) * q + 1..n} + sum f {1..(m - 1) * q}"
    by (subst split) (simp add: pre last)
  also have "\<dots> = sum f ({(m - 1) * q + 1..n} \<union> {1..(m - 1) * q})"
    by (rule sum.union_disjoint [symmetric]) auto
  also have "{(m - 1) * q + 1..n} \<union> {1..(m - 1) * q} = {1..n}" using q(3,2) by (rule ivl_glue)
  finally show ?thesis .
qed

lemma slices_disjoint:
  assumes "1 \<le> m" "1 \<le> n" "n \<le> INT_MAX" "m \<le> INT_MAX"
    and "0 \<le> t1" "t1 < t2" "t2 < m"
  shows "slice t1 m n \<inter> slice t2 m n = {}"
proof -
  have q: "0 \<le> n div m" using quotient_bounds(1) [OF assms(1,2)] .
  have "(t1 + 1) * (n div m) \<le> t2 * (n div m)"
    using assms q by (intro mult_right_mono) simp_all
  moreover have "slice t1 m n = {t1 * (n div m) + 1..(t1 + 1) * (n div m)}"
    using assms by (simp add: slice_value)
  moreover have "slice t2 m n = {t2 * (n div m) + 1..if t2 = m - 1 then n else (t2 + 1) * (n div m)}"
    using assms by (simp add: slice_value)
  ultimately show ?thesis by auto
qed

section \<open>Claims about the partition and the driver\<close>

text \<open>
  Claim C3. For every worker \<open>tid\<close> in \<open>[0, m)\<close>, with \<open>m \<ge> 1\<close> and \<open>n \<ge> 1\<close> (values of a C
  \<^verbatim>\<open>int\<close>), the range of the worker starts at \<open>tid * (n / m) + 1\<close> and ends at
  \<open>(tid + 1) * (n / m)\<close>, except that the last worker ends at \<open>n\<close>; the ranges of two
  different workers are disjoint and the union of the \<open>m\<close> ranges is \<open>[1, n]\<close>.
\<close>

theorem work_partition:
  assumes "1 \<le> m" "m \<le> INT_MAX" "1 \<le> n" "n \<le> INT_MAX"
  shows "(\<forall>tid\<in>{0..<m}. work_range tid m n =
            Inr (tid * (n div m) + 1, if tid = m - 1 then n else (tid + 1) * (n div m)))
       \<and> (\<forall>t1\<in>{0..<m}. \<forall>t2\<in>{0..<m}. t1 \<noteq> t2 \<longrightarrow> slice t1 m n \<inter> slice t2 m n = {})
       \<and> (\<Union>tid\<in>{0..<m}. slice tid m n) = {1..n}"
proof (intro conjI ballI impI)
  fix tid assume "tid \<in> {0..<m}"
  then show "work_range tid m n =
      Inr (tid * (n div m) + 1, if tid = m - 1 then n else (tid + 1) * (n div m))"
    using work_range_value [OF assms(1,3,4,2), of tid] by simp
next
  fix t1 t2 assume t: "t1 \<in> {0..<m}" "t2 \<in> {0..<m}" "t1 \<noteq> t2"
  show "slice t1 m n \<inter> slice t2 m n = {}"
  proof (cases "t1 < t2")
    case True
    with t show ?thesis using slices_disjoint [OF assms(1,3,4,2), of t1 t2] by simp
  next
    case False
    with t have "t2 < t1" by simp
    with t show ?thesis using slices_disjoint [OF assms(1,3,4,2), of t2 t1] by auto
  qed
next
  show "(\<Union>tid\<in>{0..<m}. slice tid m n) = {1..n}"
    using slices_union [OF assms(1,3,4,2)] .
qed

theorem work_partition_witness:
  "work_range 0 3 10 = Inr (1, 3) \<and> work_range 1 3 10 = Inr (4, 6)
     \<and> work_range 2 3 10 = Inr (7, 10)
     \<and> slice 0 3 10 \<inter> slice 2 3 10 = {}
     \<and> (\<Union>tid\<in>{0..<3}. slice tid 3 10) = {1..10}"
proof -
  have h: "(1::int) \<le> 3" "(3::int) \<le> INT_MAX" "(1::int) \<le> 10" "(10::int) \<le> INT_MAX"
    by (simp_all add: INT_MAX_def)
  note p = work_partition [OF h]
  have "work_range 0 3 10 = Inr (1, 3)" "work_range 1 3 10 = Inr (4, 6)" "work_range 2 3 10 = Inr (7, 10)"
    using p [THEN conjunct1, THEN bspec, of 0] p [THEN conjunct1, THEN bspec, of 1]
      p [THEN conjunct1, THEN bspec, of 2] by simp_all
  moreover have "slice 0 3 10 \<inter> slice 2 3 10 = {}"
    using p [THEN conjunct2, THEN conjunct1, THEN bspec, of 0, THEN bspec, of 2] by simp
  ultimately show ?thesis using p by simp
qed

text \<open>
  When \<open>n < m\<close>, phase 1 ends without a fault (no overflow, no access outside the
  array): every worker but the last has the empty range \<open>[1, 0]\<close>, its loop runs zero
  times, and it stores exactly \<open>0\<close> in its own slot; the last worker sums \<open>[1, n]\<close>.
\<close>

lemma idle_workers_phase1:
  assumes "1 \<le> n" "n < m" "m \<le> INT_MAX" "length ps = nat m"
  shows "\<exists>ps'. phase1 m n ps = Inr ps' \<and> length ps' = nat m
     \<and> (\<forall>tid\<in>{0..<m - 1}. work_range tid m n = Inr (1, 0) \<and> sum_loop 1 0 0 = Inr 0
           \<and> phase1_thread m n tid ps = Inr (ps[nat tid := 0]) \<and> ps' ! nat tid = 0)
     \<and> work_range (m - 1) m n = Inr (1, n) \<and> ps' ! nat (m - 1) = reference_sum n"
proof -
  have m: "1 \<le> m" and n: "n < INT_MAX" "n \<le> INT_MAX" using assms by simp_all
  have q: "n div m = 0" using assms by (simp add: div_pos_pos_trivial)
  from phase1_value [OF m assms(1) n(1) assms(3,4)] obtain ps' where
    p: "phase1 m n ps = Inr ps'" "length ps' = nat m"
       "\<forall>j\<in>{0..<m}. ps' ! nat j = sum pow_quarter (slice j m n)"
    by blast
  have "work_range tid m n = Inr (1, 0) \<and> sum_loop 1 0 0 = Inr 0
           \<and> phase1_thread m n tid ps = Inr (ps[nat tid := 0]) \<and> ps' ! nat tid = 0"
    if "tid \<in> {0..<m - 1}" for tid
  proof -
    from that have t: "0 \<le> tid" "tid < m" "tid \<noteq> m - 1" by simp_all
    have w: "work_range tid m n = Inr (1, 0)"
      using work_range_value [OF m assms(1) n(2) assms(3) t(1,2)] t(3) q by simp
    then have s: "slice tid m n = {}" by (simp add: slice_def)
    have "phase1_thread m n tid ps = Inr (ps[nat tid := 0])"
      using phase1_thread_value [OF m assms(1) n(1) assms(3) t(1,2) assms(4)] s by simp
    moreover have "ps' ! nat tid = 0" using p(3) t s by simp
    moreover have "sum_loop 1 0 0 = Inr 0" by (simp add: sum_loop.simps)
    ultimately show ?thesis using w by simp
  qed
  moreover have l: "work_range (m - 1) m n = Inr (1, n)"
    using work_range_value [OF m assms(1) n(2) assms(3), of "m - 1"] m q by simp
  moreover have "ps' ! nat (m - 1) = reference_sum n"
  proof -
    from l have "slice (m - 1) m n = {1..n}" by (simp add: slice_def)
    with p(3) m show ?thesis by (simp add: reference_sum_def)
  qed
  ultimately show ?thesis using p by blast
qed

text \<open>
  Claim C5. With a thread count or an upper bound that is not positive, the driver
  reports the error before anything else: it returns status \<open>1\<close> with the message for
  non-positive arguments, and its trace holds no allocation, no barrier and no thread.
\<close>

theorem invalid_arguments:
  "m \<le> 0 \<or> n \<le> 0 \<Longrightarrow> main env m n = Inr (1, [Stderr NotPositive])"
  by (simp add: main_def)

theorem invalid_arguments_witness:
  "main all_ok 0 10 = Inr (1, [Stderr NotPositive]) \<and> main all_ok 5 (- 1) = Inr (1, [Stderr NotPositive])"
  using invalid_arguments [of 0 10 all_ok] invalid_arguments [of 5 "- 1" all_ok] by simp

text \<open>
  Claim C4 does not hold of the code. When the creation of the second of two threads
  fails, \<^verbatim>\<open>main\<close> frees the three arrays and returns \<open>1\<close>: thread \<open>0\<close> is never joined and
  the barrier is never destroyed. When the allocation of the thread handles fails, it
  frees the table only: the barrier and the argument array stay behind.
\<close>

theorem partial_launch_leaks:
  "(\<exists>tr. main second_create_fails 2 10 = Inr (1, tr)
      \<and> tr = [Malloc Table, BarrierInit 2, Malloc Handles, Malloc Args,
              Create \<lparr>thread_id = 0, total_threads = 2, max_number = 10\<rparr>,
              Stderr (CreateFailed 1), Free Table, Free Handles, Free Args]
      \<and> unjoined tr = [0] \<and> barrier_leaked tr)
   \<and> (\<exists>tr. main handles_alloc_fails 2 10 = Inr (1, tr)
      \<and> tr = [Malloc Table, BarrierInit 2, Malloc Args, Stderr AllocationFailed, Free Table]
      \<and> unfreed tr = [Args] \<and> barrier_leaked tr)"
  by (simp add: main_def second_create_fails_def handles_alloc_fails_def all_ok_def
      thread_ids_def upto_rec1 unjoined_def unfreed_def barrier_leaked_def)

theorem partial_launch_leaks_witness:
  "\<exists>tr. main second_create_fails 2 10 = Inr (1, tr) \<and> Free Table \<in> set tr
     \<and> Join 0 \<notin> set tr \<and> BarrierDestroy \<notin> set tr"
  using partial_launch_leaks by auto

section \<open>One round of the reduction\<close>

lemma combines_iff:
  "0 \<le> tid \<Longrightarrow> 1 \<le> step \<Longrightarrow>
     combines m step tid \<longleftrightarrow> tid mod (2 * step) = 0 \<and> tid + step < m"
  by (simp add: combines_def c_mod_nonneg)

lemma partner_not_multiple:
  fixes step :: int
  assumes "1 \<le> step" "j mod (2 * step) = 0"
  shows "(j + step) mod (2 * step) \<noteq> 0"
proof -
  have "(j + step) mod (2 * step) = (j mod (2 * step) + step mod (2 * step)) mod (2 * step)"
    by (rule mod_add_eq [symmetric])
  also have "\<dots> = step" using assms by simp
  finally show ?thesis using assms by simp
qed

lemma reduce_thread_value:
  assumes "1 \<le> step" "2 * step \<le> INT_MAX" "m + step \<le> INT_MAX + 1"
    and "0 \<le> tid" "tid < m" "length ps = nat m"
  shows "reduce_thread m step tid ps =
     Inr (if combines m step tid then ps[nat tid := ps ! nat tid + ps ! nat (tid + step)] else ps)"
proof -
  have a: "in_int (2 * step)" "2 * step \<noteq> 0" "in_int (tid + step)"
    using assms by (simp_all add: in_int_def INT_MIN_def)
  show ?thesis
    using a assms by (simp add: reduce_thread_def combines_def load_def store_def)
qed

lemma round_threads:
  assumes "1 \<le> step" "2 * step \<le> INT_MAX" "m + step \<le> INT_MAX + 1"
  shows "distinct ts \<Longrightarrow> set ts \<subseteq> {0..<m} \<Longrightarrow> length ps = nat m \<Longrightarrow>
    \<exists>ps'. run_threads (reduce_thread m step) ts ps = Inr ps' \<and> length ps' = nat m \<and>
      (\<forall>j\<in>{0..<m}. ps' ! nat j =
         (if j \<in> set ts \<and> combines m step j then ps ! nat j + ps ! nat (j + step) else ps ! nat j))"
proof (induction ts arbitrary: ps)
  case Nil
  then show ?case by simp
next
  case (Cons t ts)
  let ?ps1 = "if combines m step t then ps[nat t := ps ! nat t + ps ! nat (t + step)] else ps"
  from Cons.prems have t: "0 \<le> t" "t < m" "t \<notin> set ts" by simp_all
  have first: "reduce_thread m step t ps = Inr ?ps1"
    using reduce_thread_value [OF assms t(1,2) Cons.prems(3)] .
  from Cons.prems have "distinct ts" "set ts \<subseteq> {0..<m}" "length ?ps1 = nat m" by simp_all
  from Cons.IH [OF this] obtain ps' where
    run: "run_threads (reduce_thread m step) ts ?ps1 = Inr ps'" and len: "length ps' = nat m"
    and val: "\<forall>j\<in>{0..<m}. ps' ! nat j =
         (if j \<in> set ts \<and> combines m step j then ?ps1 ! nat j + ?ps1 ! nat (j + step) else ?ps1 ! nat j)"
    by blast
  have "\<forall>j\<in>{0..<m}. ps' ! nat j =
         (if j \<in> set (t # ts) \<and> combines m step j then ps ! nat j + ps ! nat (j + step) else ps ! nat j)"
  proof
    fix j assume j: "j \<in> {0..<m}"
    show "ps' ! nat j =
         (if j \<in> set (t # ts) \<and> combines m step j then ps ! nat j + ps ! nat (j + step) else ps ! nat j)"
    proof (cases "j = t")
      case True
      with val j t Cons.prems(3) show ?thesis by simp
    next
      case False
      with j t have ne: "nat j \<noteq> nat t" by (simp add: nat_eq_iff)
      have partner: "?ps1 ! nat (j + step) = ps ! nat (j + step)" if c: "combines m step j"
      proof (cases "combines m step t")
        case True
        from c j assms(1) have "j mod (2 * step) = 0" by (simp add: combines_iff)
        from partner_not_multiple [OF assms(1) this] True t assms(1)
        have "j + step \<noteq> t" by (auto simp: combines_iff)
        with j t assms(1) have "nat (j + step) \<noteq> nat t" by (simp add: nat_eq_iff)
        then show ?thesis by simp
      next
        case False
        then show ?thesis by simp
      qed
      from ne have "?ps1 ! nat j = ps ! nat j" by simp
      with val j False partner show ?thesis by simp
    qed
  qed
  with first run len show ?case by simp
qed

lemma round_value:
  assumes "1 \<le> step" "2 * step \<le> INT_MAX" "m + step \<le> INT_MAX + 1" "length ps = nat m"
  shows "\<exists>ps'. reduction_round m (step, r, ps) = Inr (2 * step, Suc r, ps') \<and> length ps' = nat m \<and>
      (\<forall>j\<in>{0..<m}. ps' ! nat j =
         (if combines m step j then ps ! nat j + ps ! nat (j + step) else ps ! nat j))"
proof -
  have "distinct (thread_ids m)" "set (thread_ids m) \<subseteq> {0..<m}"
    by (auto simp: thread_ids_def)
  from round_threads [OF assms(1-3) this assms(4)] obtain ps' where
    "run_threads (reduce_thread m step) (thread_ids m) ps = Inr ps'" "length ps' = nat m"
    "\<forall>j\<in>{0..<m}. ps' ! nat j =
         (if j \<in> set (thread_ids m) \<and> combines m step j then ps ! nat j + ps ! nat (j + step) else ps ! nat j)"
    by blast
  moreover have "in_int (step * 2)" using assms by (simp add: in_int_def INT_MIN_def)
  ultimately show ?thesis
    by (auto simp: reduction_round_def thread_ids_def mult.commute)
qed

text \<open>
  The order in which the threads of a round take their turn is irrelevant: every schedule
  that runs each thread once gives the array of the creation order.
\<close>

lemma schedule_irrelevant:
  assumes "1 \<le> step" "2 * step \<le> INT_MAX" "m + step \<le> INT_MAX + 1" "length ps = nat m"
    and "distinct ts" "set ts = {0..<m}"
  shows "run_threads (reduce_thread m step) ts ps = run_threads (reduce_thread m step) (thread_ids m) ps"
proof -
  have ids: "distinct (thread_ids m)" "set (thread_ids m) \<subseteq> {0..<m}" "set (thread_ids m) = {0..<m}"
    by (auto simp: thread_ids_def)
  from assms(6) have sub: "set ts \<subseteq> {0..<m}" by simp
  from round_threads [OF assms(1-3) assms(5) sub assms(4)] obtain p1 where
    p1: "run_threads (reduce_thread m step) ts ps = Inr p1" "length p1 = nat m"
    "\<forall>j\<in>{0..<m}. p1 ! nat j =
         (if j \<in> set ts \<and> combines m step j then ps ! nat j + ps ! nat (j + step) else ps ! nat j)"
    by blast
  from round_threads [OF assms(1-3) ids(1,2) assms(4)] obtain p2 where
    p2: "run_threads (reduce_thread m step) (thread_ids m) ps = Inr p2" "length p2 = nat m"
    "\<forall>j\<in>{0..<m}. p2 ! nat j =
         (if j \<in> set (thread_ids m) \<and> combines m step j then ps ! nat j + ps ! nat (j + step) else ps ! nat j)"
    by blast
  have "p1 = p2"
  proof (rule nth_equalityI)
    show "length p1 = length p2" using p1(2) p2(2) by simp
  next
    fix i assume "i < length p1"
    with p1(2) have i: "int i \<in> {0..<m}" by auto
    from p1(3) [THEN bspec, OF i] p2(3) [THEN bspec, OF i] assms(6) ids(3)
    show "p1 ! i = p2 ! i" by simp
  qed
  with p1(1) p2(1) show ?thesis by simp
qed

section \<open>Footprint and frame of a round\<close>

lemma reduce_thread_writes:
  assumes "reduce_thread m step tid ps = Inr ps'"
  shows "length ps' = length ps"
    and "\<And>i. i < length ps \<Longrightarrow> int i \<notin> write_slots m step tid \<Longrightarrow> ps' ! i = ps ! i"
proof -
  have "ps' = ps \<or> (combines m step tid \<and> 0 \<le> tid \<and> (\<exists>v. ps' = ps[nat tid := v]))"
    using assms
    by (auto simp: reduce_thread_def combines_def load_def store_def split: if_splits)
  then show "length ps' = length ps"
    and "\<And>i. i < length ps \<Longrightarrow> int i \<notin> write_slots m step tid \<Longrightarrow> ps' ! i = ps ! i"
    by (auto simp: write_slots_def)
qed

lemma reduce_thread_reads:
  assumes "length qs = length ps" "qs ! nat tid = ps ! nat tid"
    and "\<forall>k\<in>read_slots m step tid. qs ! nat k = ps ! nat k"
  shows "map_sum id (\<lambda>p. p ! nat tid) (reduce_thread m step tid qs)
       = map_sum id (\<lambda>p. p ! nat tid) (reduce_thread m step tid ps)"
  using assms
  by (auto simp: reduce_thread_def read_slots_def combines_def load_def store_def nat_less_iff)

lemma run_threads_frame:
  "run_threads (reduce_thread m step) ts ps = Inr ps' \<Longrightarrow>
     length ps' = length ps \<and>
     (\<forall>i<length ps. \<not> combines m step (int i) \<longrightarrow> ps' ! i = ps ! i)"
proof (induction ts arbitrary: ps)
  case Nil
  then show ?case by simp
next
  case (Cons t ts)
  from Cons.prems obtain ps1 where
    first: "reduce_thread m step t ps = Inr ps1"
    and rest: "run_threads (reduce_thread m step) ts ps1 = Inr ps'"
    by (auto split: sum.splits)
  note w = reduce_thread_writes [OF first]
  from Cons.IH [OF rest] w(1) have
    len: "length ps' = length ps"
    and fr: "\<forall>i<length ps. \<not> combines m step (int i) \<longrightarrow> ps' ! i = ps1 ! i"
    by simp_all
  have "ps' ! i = ps ! i" if "i < length ps" "\<not> combines m step (int i)" for i
  proof -
    from that have "int i \<notin> write_slots m step t"
      by (auto simp: write_slots_def split: if_splits)
    with w(2) that fr show ?thesis by simp
  qed
  with len show ?case by simp
qed

text \<open>
  Claim C7. In a round with step \<open>s \<ge> 1\<close> and any thread count \<open>m\<close>, the slots that
  different workers touch are different: the write targets are the workers \<open>tid\<close> of
  \<open>[0, m)\<close> with \<open>tid mod 2s = 0\<close> and \<open>tid + s < m\<close>, the slots read from other workers are
  the \<open>tid + s\<close> for these, no write target is a slot that is read, and two different
  workers share neither a write target nor a slot that one of them reads.
\<close>

theorem round_slots_disjoint:
  assumes "1 \<le> s"
  shows "{tid\<in>{0..<m}. combines m s tid} = {tid\<in>{0..<m}. tid mod (2 * s) = 0 \<and> tid + s < m}
    \<and> (\<Union>tid\<in>{0..<m}. write_slots m s tid) \<inter> (\<Union>tid\<in>{0..<m}. read_slots m s tid) = {}
    \<and> (\<forall>t1\<in>{0..<m}. \<forall>t2\<in>{0..<m}. t1 \<noteq> t2 \<longrightarrow>
          (write_slots m s t1 \<union> read_slots m s t1) \<inter> (write_slots m s t2 \<union> read_slots m s t2) = {})"
proof (intro conjI ballI impI)
  show "{tid\<in>{0..<m}. combines m s tid} = {tid\<in>{0..<m}. tid mod (2 * s) = 0 \<and> tid + s < m}"
    using assms by (auto simp: combines_iff)
next
  have "\<forall>t1\<in>{0..<m}. \<forall>t2\<in>{0..<m}. combines m s t1 \<longrightarrow> combines m s t2 \<longrightarrow> t1 \<noteq> t2 + s"
  proof (intro ballI impI)
    fix t1 t2 assume "t1 \<in> {0..<m}" "t2 \<in> {0..<m}" "combines m s t1" "combines m s t2"
    with assms have "t1 mod (2 * s) = 0" "t2 mod (2 * s) = 0" by (simp_all add: combines_iff)
    with partner_not_multiple [OF assms, of t2] show "t1 \<noteq> t2 + s" by auto
  qed
  then show "(\<Union>tid\<in>{0..<m}. write_slots m s tid) \<inter> (\<Union>tid\<in>{0..<m}. read_slots m s tid) = {}"
    by (fastforce simp: write_slots_def read_slots_def split: if_splits)
next
  fix t1 t2 assume t: "t1 \<in> {0..<m}" "t2 \<in> {0..<m}" "t1 \<noteq> t2"
  have ne: "a \<noteq> b + s" if "0 \<le> a" "0 \<le> b" "combines m s a" "combines m s b" for a b
  proof -
    from that assms have "a mod (2 * s) = 0" "b mod (2 * s) = 0" by (simp_all add: combines_iff)
    with partner_not_multiple [OF assms, of b] show ?thesis by auto
  qed
  from t have "0 \<le> t1" "0 \<le> t2" by simp_all
  with t ne [of t1 t2] ne [of t2 t1]
  show "(write_slots m s t1 \<union> read_slots m s t1) \<inter> (write_slots m s t2 \<union> read_slots m s t2) = {}"
    by (auto simp: write_slots_def read_slots_def split: if_splits)
qed

theorem round_slots_disjoint_witness:
  "{tid\<in>{0..<5}. combines 5 1 tid} = {0, 2}
    \<and> write_slots 5 1 0 = {0} \<and> read_slots 5 1 0 = {1}
    \<and> write_slots 5 1 2 = {2} \<and> read_slots 5 1 2 = {3}
    \<and> write_slots 5 1 4 = {} \<and> read_slots 5 1 4 = {}
    \<and> (write_slots 5 1 0 \<union> read_slots 5 1 0) \<inter> (write_slots 5 1 2 \<union> read_slots 5 1 2) = {}"
proof -
  have h: "(1::int) \<le> 1" by simp
  note p = round_slots_disjoint [OF h, of 5]
  have "{tid\<in>{0..<5::int}. tid mod (2 * 1) = 0 \<and> tid + 1 < 5} = {0, 2}"
    by (auto simp: atLeastLessThan_def)
  with p have a: "{tid\<in>{0..<5}. combines 5 1 tid} = {0, 2}" by simp
  have b: "write_slots 5 1 0 = {0}" "read_slots 5 1 0 = {1}" "write_slots 5 1 2 = {2}"
    "read_slots 5 1 2 = {3}" "write_slots 5 1 4 = {}" "read_slots 5 1 4 = {}"
    by (simp_all add: write_slots_def read_slots_def combines_def c_mod_def)
  from p [THEN conjunct2, THEN conjunct2, THEN bspec, of 0, THEN bspec, of 2]
  have "(write_slots 5 1 0 \<union> read_slots 5 1 0) \<inter> (write_slots 5 1 2 \<union> read_slots 5 1 2) = {}"
    by simp
  with a b show ?thesis by simp
qed

text \<open>
  Claim C10. A round with step \<open>s \<ge> 1\<close> leaves every slot \<open>j\<close> of the array as it was,
  unless \<open>j mod 2s = 0\<close> and \<open>j + s < m\<close>; the array keeps its length.
\<close>

theorem round_frame:
  assumes "1 \<le> s" "reduction_round m (s, r, ps) = Inr (s', r', ps')"
  shows "length ps' = length ps
    \<and> (\<forall>j\<in>{0..<int (length ps)}. \<not> (j mod (2 * s) = 0 \<and> j + s < m) \<longrightarrow> ps' ! nat j = ps ! nat j)"
proof -
  from assms(2) have "run_threads (reduce_thread m s) (thread_ids m) ps = Inr ps'"
    by (auto simp: reduction_round_def split: sum.splits if_splits)
  from run_threads_frame [OF this] have
    len: "length ps' = length ps"
    and fr: "\<forall>i<length ps. \<not> combines m s (int i) \<longrightarrow> ps' ! i = ps ! i"
    by simp_all
  have "ps' ! nat j = ps ! nat j"
    if "j \<in> {0..<int (length ps)}" "\<not> (j mod (2 * s) = 0 \<and> j + s < m)" for j
  proof -
    from that assms(1) have "\<not> combines m s (int (nat j))" by (simp add: combines_iff)
    moreover from that have "nat j < length ps" by (simp add: nat_less_iff)
    ultimately show ?thesis using fr by blast
  qed
  with len show ?thesis by blast
qed

theorem round_frame_witness:
  "reduction_round 3 (1, 0, [1, 2, 3]) = Inr (2, 1, [3, 2, 3])"
proof -
  have h: "(1::int) \<le> 1" by simp
  have r: "reduction_round 3 (1, 0, [1, 2, 3]) = Inr (2, 1, [3, 2, 3])"
    by (simp add: reduction_round_def thread_ids_def upto_rec1 reduce_thread_def in_int_def
        INT_MIN_def INT_MAX_def c_mod_def load_def store_def)
  from round_frame [OF h r] show ?thesis using r by simp
qed

section \<open>The invariant of the reduction loop\<close>

lemma sum_slots:
  assumes "length ps = nat m"
  shows "(\<Sum>i\<in>{0..<m}. ps ! nat i) = sum_list ps"
proof -
  have "(\<Sum>i\<in>{0..<m}. ps ! nat i) = (\<Sum>i\<in>{0..<length ps}. ps ! i)"
    using assms by (intro sum.reindex_bij_witness [of _ int nat]) auto
  then show ?thesis by (simp add: sum_list_sum_nth)
qed

lemma block_inv_start: "length ps0 = nat m \<Longrightarrow> block_inv m 1 ps0 ps0"
proof -
  have "{j..<min (j + 1) m} = {j}" if "j \<in> {0..<m}" for j :: int
    using that by auto
  then show "length ps0 = nat m \<Longrightarrow> block_inv m 1 ps0 ps0"
    by (simp add: block_inv_def)
qed

lemma multiple_of_double:
  fixes s :: int
  assumes "j mod (2 * s) = 0"
  shows "j mod s = 0" and "(j + s) mod s = 0"
proof -
  from assms have "2 * s dvd j" by (simp add: mod_eq_0_iff_dvd)
  then have "s dvd j" by (rule dvd_mult_right)
  then show "j mod s = 0" by (simp add: mod_eq_0_iff_dvd)
  then show "(j + s) mod s = 0" by simp
qed

lemma block_inv_round:
  assumes s: "1 \<le> s" and inv: "block_inv m s ps0 ps" and len: "length ps' = nat m"
    and upd: "\<forall>j\<in>{0..<m}. ps' ! nat j =
         (if combines m s j then ps ! nat j + ps ! nat (j + s) else ps ! nat j)"
  shows "block_inv m (2 * s) ps0 ps'"
  unfolding block_inv_def
proof (intro conjI ballI impI)
  show "length ps' = nat m" by (rule len)
next
  fix j assume j: "j \<in> {0..<m}" and mult: "j mod (2 * s) = 0"
  let ?g = "\<lambda>i. ps0 ! nat i"
  note ms = multiple_of_double [OF mult]
  from inv j ms(1) have own: "ps ! nat j = sum ?g {j..<min (j + s) m}"
    by (simp add: block_inv_def)
  show "ps' ! nat j = sum ?g {j..<min (j + 2 * s) m}"
  proof (cases "j + s < m")
    case True
    with j s mult have c: "combines m s j" by (simp add: combines_iff)
    from True j s have "j + s \<in> {0..<m}" by simp
    with inv ms(2) have partner: "ps ! nat (j + s) = sum ?g {j + s..<min (j + s + s) m}"
      by (simp add: block_inv_def)
    from True have own': "ps ! nat j = sum ?g {j..<j + s}"
      using own by (simp add: min_def)
    have "{j..<j + s} \<union> {j + s..<min (j + s + s) m} = {j..<min (j + s + s) m}"
      using s True by auto
    moreover have "sum ?g ({j..<j + s} \<union> {j + s..<min (j + s + s) m})
        = sum ?g {j..<j + s} + sum ?g {j + s..<min (j + s + s) m}"
      by (rule sum.union_disjoint) auto
    ultimately have "sum ?g {j..<j + s} + sum ?g {j + s..<min (j + s + s) m}
        = sum ?g {j..<min (j + s + s) m}"
      by simp
    with upd j c own' partner show ?thesis by (simp add: algebra_simps)
  next
    case False
    with j s have c: "\<not> combines m s j" by (simp add: combines_iff)
    from False s have "min (j + s) m = m" "min (j + 2 * s) m = m" by simp_all
    with upd j c own show ?thesis by simp
  qed
qed

lemma block_inv_total:
  assumes "block_inv m s ps0 ps" "1 \<le> m" "m \<le> s" "length ps0 = nat m"
  shows "ps ! 0 = sum_list ps0"
proof -
  from assms have "(0::int) \<in> {0..<m}" "(0::int) mod s = 0" "min (0 + s) m = m" by simp_all
  with assms(1) have "ps ! nat 0 = (\<Sum>i\<in>{0..<m}. ps0 ! nat i)"
    unfolding block_inv_def by metis
  then show ?thesis using sum_slots [OF assms(4)] by simp
qed

lemma run_rounds_last:
  "run_rounds (Suc k) m st =
     (case run_rounds k m st of
        Inl f \<Rightarrow> Inl f
      | Inr st' \<Rightarrow> if fst st' < m then reduction_round m st' else Inr st')"
proof (induction k arbitrary: st)
  case 0
  show ?case by (simp split: sum.splits)
next
  case (Suc k)
  show ?case
  proof (cases "fst st < m")
    case False
    then show ?thesis by simp
  next
    case True
    show ?thesis
    proof (cases "reduction_round m st")
      case (Inl f)
      with True show ?thesis by simp
    next
      case (Inr st1)
      with True have "run_rounds (Suc (Suc k)) m st = run_rounds (Suc k) m st1"
        by simp
      also have "\<dots> = (case run_rounds k m st1 of
          Inl f \<Rightarrow> Inl f
        | Inr st' \<Rightarrow> if fst st' < m then reduction_round m st' else Inr st')"
        by (rule Suc.IH)
      also from True Inr have "run_rounds k m st1 = run_rounds (Suc k) m st"
        by simp
      finally show ?thesis .
    qed
  qed
qed

lemma loop_passes:
  "run_rounds k m st = Inr st' \<Longrightarrow> reduction_loop m st = reduction_loop m st'"
proof (induction k arbitrary: st)
  case 0
  then show ?case by simp
next
  case (Suc k)
  show ?case
  proof (cases "fst st < m")
    case True
    with Suc.prems obtain st1 where
      r: "reduction_round m st = Inr st1" and rest: "run_rounds k m st1 = Inr st'"
      by (auto split: sum.splits)
    from True r have "reduction_loop m st = reduction_loop m st1"
      by (subst reduction_loop.simps) simp
    with Suc.IH [OF rest] show ?thesis by simp
  next
    case False
    with Suc.prems show ?thesis by simp
  qed
qed

lemma no_overflow_below:
  fixes m s :: int
  assumes "m \<le> 2 ^ 30" "s < m"
  shows "2 * s \<le> INT_MAX" and "m + s \<le> INT_MAX + 1"
  using assms by (simp_all add: INT_MAX_def)

lemma run_rounds_state:
  assumes "1 \<le> m" "m \<le> 2 ^ 30" "length ps0 = nat m"
  shows "k = 0 \<or> 2 ^ (k - 1) < m \<Longrightarrow>
     \<exists>ps. run_rounds k m (1, 0, ps0) = Inr (2 ^ k, k, ps) \<and> block_inv m (2 ^ k) ps0 ps"
proof (induction k)
  case 0
  show ?case using block_inv_start [OF assms(3)] by simp
next
  case (Suc k)
  then have lt: "(2::int) ^ k < m" by simp
  have "k = 0 \<or> (2::int) ^ (k - 1) < m"
  proof (cases k)
    case 0
    then show ?thesis by simp
  next
    case (Suc k')
    have "(0::int) < 2 ^ k'" by simp
    moreover from lt Suc have "2 * (2::int) ^ k' < m" by simp
    ultimately have "(2::int) ^ k' < m" by linarith
    with Suc show ?thesis by simp
  qed
  from Suc.IH [OF this] obtain ps where
    st: "run_rounds k m (1, 0, ps0) = Inr (2 ^ k, k, ps)" and inv: "block_inv m (2 ^ k) ps0 ps"
    by blast
  have one: "(1::int) \<le> 2 ^ k" by simp
  from inv have len: "length ps = nat m" by (simp add: block_inv_def)
  from round_value [OF one no_overflow_below [OF assms(2) lt] len, of k] obtain ps' where
    r: "reduction_round m (2 ^ k, k, ps) = Inr (2 * 2 ^ k, Suc k, ps')" and len': "length ps' = nat m"
    and upd: "\<forall>j\<in>{0..<m}. ps' ! nat j =
         (if combines m (2 ^ k) j then ps ! nat j + ps ! nat (j + 2 ^ k) else ps ! nat j)"
    by blast
  from block_inv_round [OF one inv len' upd] have "block_inv m (2 ^ Suc k) ps0 ps'" by simp
  moreover have "run_rounds (Suc k) m (1, 0, ps0) = Inr (2 ^ Suc k, Suc k, ps')"
    using st lt r by (simp add: run_rounds_last del: run_rounds.simps)
  ultimately show ?case by blast
qed

lemma rounds_needed:
  fixes m :: int
  assumes "m \<le> 2 ^ 30"
  shows "\<exists>K. m \<le> 2 ^ K \<and> (K = 0 \<or> 2 ^ (K - 1) < m)"
proof -
  define K where "K = (LEAST K. m \<le> 2 ^ K)"
  have a: "m \<le> 2 ^ K" unfolding K_def using assms by (rule LeastI)
  have "2 ^ (K - 1) < m" if "K \<noteq> 0"
  proof -
    from that have "K - 1 < K" by simp
    then have "\<not> m \<le> 2 ^ (K - 1)" unfolding K_def by (rule not_less_Least)
    then show ?thesis by simp
  qed
  then have "K = 0 \<or> 2 ^ (K - 1) < m" by auto
  with a have "m \<le> 2 ^ K \<and> (K = 0 \<or> 2 ^ (K - 1) < m)" by simp
  then show ?thesis by (rule exI)
qed

lemma ceiling_log2:
  fixes m :: int
  assumes "1 \<le> m" "m \<le> 2 ^ K" "K = 0 \<or> 2 ^ (K - 1) < m"
  shows "\<lceil>log 2 (real_of_int m)\<rceil> = int K"
proof (cases K)
  case 0
  with assms have "m = 1" by simp
  with 0 show ?thesis by simp
next
  case (Suc n)
  with assms have "(2::int) ^ n < m" by simp
  with assms(1) have a: "(2::nat) ^ n < nat m"
    by (simp add: nat_less_iff)
  from assms(1,2) Suc have b: "nat m \<le> (2::nat) ^ (n + 1)"
    by (simp add: nat_le_iff)
  from ceiling_log_nat_eq_if [OF a b] have "\<lceil>log (real 2) (real (nat m))\<rceil> = int n + 1" by simp
  with assms(1) Suc show ?thesis by simp
qed

section \<open>Termination of the reduction loop\<close>

lemma loop_final:
  assumes "1 \<le> m" "m \<le> 2 ^ 30" "length ps0 = nat m"
  shows "\<exists>K psF. reduction_loop m (1, 0, ps0) = Inr (2 ^ K, K, psF)
      \<and> run_rounds K m (1, 0, ps0) = Inr (2 ^ K, K, psF)
      \<and> m \<le> 2 ^ K \<and> (K = 0 \<or> 2 ^ (K - 1) < m)
      \<and> block_inv m (2 ^ K) ps0 psF \<and> psF ! 0 = sum_list ps0"
proof -
  from rounds_needed [OF assms(2)] obtain K where
    K: "m \<le> 2 ^ K" "K = 0 \<or> 2 ^ (K - 1) < m"
    by blast
  from run_rounds_state [OF assms K(2)] obtain psF where
    st: "run_rounds K m (1, 0, ps0) = Inr (2 ^ K, K, psF)" and inv: "block_inv m (2 ^ K) ps0 psF"
    by blast
  from loop_passes [OF st] K(1) have "reduction_loop m (1, 0, ps0) = Inr (2 ^ K, K, psF)"
    by (subst (asm) (2) reduction_loop.simps) simp
  moreover have "psF ! 0 = sum_list ps0"
    using block_inv_total [OF inv assms(1) K(1) assms(3)] .
  ultimately show ?thesis using st inv K by blast
qed

lemma loop_overflow:
  assumes "2 ^ 30 < m" "m \<le> 2 ^ 30 + 2 ^ 29"
  shows "k \<le> 30 \<Longrightarrow> length ps = nat m \<Longrightarrow> reduction_loop m (2 ^ k, r, ps) = Inl SignedOverflow"
proof (induction "30 - k" arbitrary: k r ps)
  case 0
  then have k: "k = 30" by simp
  from assms have "thread_ids m = 0 # [1..m - 1]"
    by (simp add: thread_ids_def upto_rec1 [of 0])
  then have "reduction_round m (2 ^ 30, r, ps) = Inl SignedOverflow"
    by (simp add: reduction_round_def reduce_thread_def in_int_def INT_MAX_def)
  with assms k show ?case
    by (subst reduction_loop.simps) simp
next
  case (Suc d)
  then have k: "k \<le> 29" by simp
  then have "(2::int) ^ k \<le> 2 ^ 29" by (intro power_increasing) simp_all
  then have b: "(2::int) ^ k \<le> 536870912" by simp
  have one: "(1::int) \<le> 2 ^ k" by simp
  from b have o1: "2 * (2::int) ^ k \<le> INT_MAX" by (simp add: INT_MAX_def)
  from b assms have o2: "m + 2 ^ k \<le> INT_MAX + 1" by (simp add: INT_MAX_def)
  from round_value [OF one o1 o2 Suc.prems(2), of r] obtain ps' where
    r: "reduction_round m (2 ^ k, r, ps) = Inr (2 * 2 ^ k, Suc r, ps')" and len: "length ps' = nat m"
    by blast
  from Suc.hyps(2) k have "d = 30 - Suc k" "Suc k \<le> 30" by simp_all
  from Suc.hyps(1) [OF this len, of "Suc r"]
  have "reduction_loop m (2 * 2 ^ k, Suc r, ps') = Inl SignedOverflow" by simp
  moreover from b assms have "(2::int) ^ k < m" by simp
  ultimately show ?case using r
    by (subst reduction_loop.simps) simp
qed

text \<open>
  Claim C8, amended. For every thread count \<open>m\<close> with \<open>1 \<le> m \<le> 2^30\<close> the reduction loop
  returns; it ends with \<open>step \<ge> m\<close>, after exactly \<open>\<lceil>log2 m\<rceil>\<close> rounds (zero rounds
  when \<open>m = 1\<close>), and \<open>step\<close> was below \<open>m\<close> at the start of every round.
\<close>

theorem reduction_rounds:
  assumes "1 \<le> m" "m \<le> 2 ^ 30" "length ps = nat m"
  shows "\<exists>step rounds ps'. reduction_loop m (1, 0, ps) = Inr (step, rounds, ps')
      \<and> m \<le> step \<and> step = 2 ^ rounds \<and> (rounds = 0 \<or> 2 ^ (rounds - 1) < m)
      \<and> int rounds = \<lceil>log 2 (real_of_int m)\<rceil> \<and> (m = 1 \<longrightarrow> rounds = 0)"
proof -
  from loop_final [OF assms] obtain K psF where
    l: "reduction_loop m (1, 0, ps) = Inr (2 ^ K, K, psF)" "m \<le> 2 ^ K" "K = 0 \<or> 2 ^ (K - 1) < m"
    by blast
  from ceiling_log2 [OF assms(1) l(2,3)] have c: "int K = \<lceil>log 2 (real_of_int m)\<rceil>" by simp
  then have "m = 1 \<longrightarrow> K = 0" by auto
  with l c show ?thesis by blast
qed

theorem reduction_rounds_witness:
  "reduction_loop 3 (1, 0, [1, 2, 3]) = Inr (4, 2, [6, 2, 3]) \<and> \<lceil>log 2 (3::real)\<rceil> = 2"
proof -
  have h: "(1::int) \<le> 3" "(3::int) \<le> 2 ^ 30" "length [1, 2, 3 :: real] = nat 3" by simp_all
  have r1: "reduction_round 3 (1, 0, [1, 2, 3]) = Inr (2, 1, [3, 2, 3])"
    by (simp add: reduction_round_def thread_ids_def upto_rec1 reduce_thread_def in_int_def
        INT_MIN_def INT_MAX_def c_mod_def load_def store_def)
  have r2: "reduction_round 3 (2, Suc 0, [3, 2, 3]) = Inr (4, 2, [6, 2, 3])"
    by (simp add: reduction_round_def thread_ids_def upto_rec1 reduce_thread_def in_int_def
        INT_MIN_def INT_MAX_def c_mod_def load_def store_def)
  have e: "reduction_loop 3 (1, 0, [1, 2, 3]) = Inr (4, 2, [6, 2, 3])"
    by (simp add: r1 r2)
  from reduction_rounds [OF h] obtain step rounds ps' where
    p: "reduction_loop 3 (1, 0, [1, 2, 3]) = Inr (step, rounds, ps')"
      "int rounds = \<lceil>log 2 (real_of_int 3)\<rceil>"
    by blast
  from p(1) e have "rounds = 2" by simp
  with p(2) have "\<lceil>log 2 (3::real)\<rceil> = 2" by simp
  with e show ?thesis by simp
qed

theorem reduction_rounds_counterexample:
  "reduction_loop 1073741825 (1, 0, replicate 1073741825 0) = Inl SignedOverflow"
proof -
  have h: "(2::int) ^ 30 < 1073741825" "(1073741825::int) \<le> 2 ^ 30 + 2 ^ 29" "(0::nat) \<le> 30"
    by simp_all
  have l: "length (replicate 1073741825 (0::real)) = nat 1073741825"
    by (simp only: length_replicate nat_numeral)
  from loop_overflow [OF h l, of 0] show ?thesis by (simp only: power_0)
qed

section \<open>Correctness of the tree reduction\<close>

text \<open>
  Claim C2, amended. For every thread count \<open>m\<close> with \<open>1 \<le> m \<le> 2^30\<close> and every array
  \<open>ps0\<close> of phase-1 values: whenever \<open>2^k < m\<close>, round \<open>k\<close> starts with \<open>step = 2^k\<close> in a
  state that the loop passes through, in which every slot \<open>j\<close> with \<open>j mod 2^k = 0\<close> holds
  the sum of the values of the workers \<open>j\<close> to \<open>j + 2^k - 1\<close>, clipped to \<open>m\<close>; the round
  returns and establishes the same for blocks of size \<open>2^(k+1)\<close>; and the loop ends with the
  sum of all \<open>m\<close> values in slot \<open>0\<close>, whether or not \<open>m\<close> is a power of two.
\<close>

theorem tree_reduction:
  assumes "1 \<le> m" "m \<le> 2 ^ 30" "length ps0 = nat m"
  shows "(\<forall>k. 2 ^ k < m \<longrightarrow>
            (\<exists>ps ps'. run_rounds k m (1, 0, ps0) = Inr (2 ^ k, k, ps)
               \<and> reduction_loop m (1, 0, ps0) = reduction_loop m (2 ^ k, k, ps)
               \<and> block_inv m (2 ^ k) ps0 ps
               \<and> reduction_round m (2 ^ k, k, ps) = Inr (2 ^ Suc k, Suc k, ps')
               \<and> block_inv m (2 ^ Suc k) ps0 ps'))
       \<and> (\<exists>step rounds psF. reduction_loop m (1, 0, ps0) = Inr (step, rounds, psF)
               \<and> m \<le> step \<and> block_inv m step ps0 psF \<and> psF ! 0 = sum_list ps0)"
proof (intro conjI allI impI)
  fix k :: nat
  assume lt: "2 ^ k < m"
  have pre: "k = 0 \<or> (2::int) ^ (k - 1) < m"
  proof (cases k)
    case 0
    then show ?thesis by simp
  next
    case (Suc k')
    have "(0::int) < 2 ^ k'" by simp
    moreover from lt Suc have "2 * (2::int) ^ k' < m" by simp
    ultimately have "(2::int) ^ k' < m" by linarith
    with Suc show ?thesis by simp
  qed
  from run_rounds_state [OF assms pre] obtain ps where
    st: "run_rounds k m (1, 0, ps0) = Inr (2 ^ k, k, ps)" and inv: "block_inv m (2 ^ k) ps0 ps"
    by blast
  have one: "(1::int) \<le> 2 ^ k" by simp
  from inv have len: "length ps = nat m" by (simp add: block_inv_def)
  from round_value [OF one no_overflow_below [OF assms(2) lt] len, of k] obtain ps' where
    r: "reduction_round m (2 ^ k, k, ps) = Inr (2 * 2 ^ k, Suc k, ps')" and len': "length ps' = nat m"
    and upd: "\<forall>j\<in>{0..<m}. ps' ! nat j =
         (if combines m (2 ^ k) j then ps ! nat j + ps ! nat (j + 2 ^ k) else ps ! nat j)"
    by blast
  from block_inv_round [OF one inv len' upd] have "block_inv m (2 ^ Suc k) ps0 ps'" by simp
  with st inv r loop_passes [OF st]
  show "\<exists>ps ps'. run_rounds k m (1, 0, ps0) = Inr (2 ^ k, k, ps)
               \<and> reduction_loop m (1, 0, ps0) = reduction_loop m (2 ^ k, k, ps)
               \<and> block_inv m (2 ^ k) ps0 ps
               \<and> reduction_round m (2 ^ k, k, ps) = Inr (2 ^ Suc k, Suc k, ps')
               \<and> block_inv m (2 ^ Suc k) ps0 ps'"
    by auto
next
  from loop_final [OF assms]
  show "\<exists>step rounds psF. reduction_loop m (1, 0, ps0) = Inr (step, rounds, psF)
               \<and> m \<le> step \<and> block_inv m step ps0 psF \<and> psF ! 0 = sum_list ps0"
    by blast
qed

theorem tree_reduction_witness:
  "run_rounds 1 5 (1, 0, [1, 2, 3, 4, 5]) = Inr (2, 1, [3, 2, 7, 4, 5])
   \<and> reduction_round 5 (2, 1, [3, 2, 7, 4, 5]) = Inr (4, 2, [10, 2, 7, 4, 5])
   \<and> reduction_loop 5 (1, 0, [1, 2, 3, 4, 5]) = Inr (8, 3, [15, 2, 7, 4, 5])"
proof -
  have h: "(1::int) \<le> 5" "(5::int) \<le> 2 ^ 30" "length [1, 2, 3, 4, 5 :: real] = nat 5" by simp_all
  note ev = reduction_round_def thread_ids_def upto_rec1 reduce_thread_def in_int_def
        INT_MIN_def INT_MAX_def c_mod_def load_def store_def
  have r1: "reduction_round 5 (1, 0, [1, 2, 3, 4, 5]) = Inr (2, Suc 0, [3, 2, 7, 4, 5])"
    by (simp add: ev)
  have r2: "reduction_round 5 (2, Suc 0, [3, 2, 7, 4, 5]) = Inr (4, Suc (Suc 0), [10, 2, 7, 4, 5])"
    by (simp add: ev)
  have r3: "reduction_round 5 (4, Suc (Suc 0), [10, 2, 7, 4, 5]) = Inr (8, 3, [15, 2, 7, 4, 5])"
    by (simp add: ev)
  have a: "run_rounds 1 5 (1, 0, [1, 2, 3, 4, 5]) = Inr (2, 1, [3, 2, 7, 4, 5])"
    by (simp add: r1)
  have b: "reduction_loop 5 (1, 0, [1, 2, 3, 4, 5]) = Inr (8, 3, [15, 2, 7, 4, 5])"
    by (simp add: r1 r2 r3)
  from tree_reduction [OF h] obtain step rounds psF where
    "reduction_loop 5 (1, 0, [1, 2, 3, 4, 5]) = Inr (step, rounds, psF)"
    "psF ! 0 = sum_list [1, 2, 3, 4, 5]"
    by blast
  with a b r2 show ?thesis by simp
qed

theorem tree_reduction_counterexample:
  "reduction_loop 1073741825 (1, 0, replicate 1073741825 1) = Inl SignedOverflow"
proof -
  have h: "(2::int) ^ 30 < 1073741825" "(1073741825::int) \<le> 2 ^ 30 + 2 ^ 29" "(0::nat) \<le> 30"
    by simp_all
  have l: "length (replicate 1073741825 (1::real)) = nat 1073741825"
    by (simp only: length_replicate nat_numeral)
  from loop_overflow [OF h l, of 0] show ?thesis by (simp only: power_0)
qed

section \<open>The whole computation\<close>

lemma phase1_total:
  assumes "1 \<le> m" "m \<le> INT_MAX" "1 \<le> n" "n < INT_MAX" "length ps = nat m"
  shows "\<exists>ps1. phase1 m n ps = Inr ps1 \<and> length ps1 = nat m \<and> sum_list ps1 = reference_sum n"
proof -
  from phase1_value [OF assms(1,3,4,2,5)] obtain ps1 where
    p: "phase1 m n ps = Inr ps1" "length ps1 = nat m"
      "\<forall>j\<in>{0..<m}. ps1 ! nat j = sum pow_quarter (slice j m n)"
    by blast
  from assms have n: "n \<le> INT_MAX" by simp
  have "sum_list ps1 = (\<Sum>j\<in>{0..<m}. ps1 ! nat j)"
    using sum_slots [OF p(2)] by simp
  also have "\<dots> = (\<Sum>j\<in>{0..<m}. sum pow_quarter (slice j m n))"
    using p(3) by (intro sum.cong refl) simp
  also have "\<dots> = reference_sum n"
    using slices_sum [OF assms(1,3) n assms(2)] by (simp add: reference_sum_def)
  finally show ?thesis using p by blast
qed

text \<open>
  With the \<^verbatim>\<open>double\<close> operations taken as exact, and as long as no \<^verbatim>\<open>int\<close> overflows, the
  slots sum to the reference sum at the end of phase 1 and slot \<open>0\<close> holds it at the end
  of phase 2. This says nothing about the rounding of the program's \<^verbatim>\<open>double\<close> values.
\<close>

lemma compute_exact:
  assumes "1 \<le> m" "m \<le> 2 ^ 30" "1 \<le> n" "n < INT_MAX" "length ps = nat m"
  shows "compute m n ps = Inr (reference_sum n)
     \<and> (\<exists>ps1. phase1 m n ps = Inr ps1 \<and> sum_list ps1 = reference_sum n)
     \<and> (\<exists>step rounds ps2. compute_quadruple_roots m n ps = Inr (step, rounds, ps2)
           \<and> ps2 ! 0 = reference_sum n)"
proof -
  from assms(2) have m: "m \<le> INT_MAX" by (simp add: INT_MAX_def)
  from phase1_total [OF assms(1) m assms(3,4,5)] obtain ps1 where
    p: "phase1 m n ps = Inr ps1" "length ps1 = nat m" "sum_list ps1 = reference_sum n"
    by blast
  from loop_final [OF assms(1,2) p(2)] obtain K psF where
    l: "reduction_loop m (1, 0, ps1) = Inr (2 ^ K, K, psF)" "block_inv m (2 ^ K) ps1 psF"
      "psF ! 0 = sum_list ps1"
    by blast
  from l(2) assms(1) have "load psF 0 = Inr (psF ! 0)"
    by (simp add: block_inv_def load_def)
  with p l have c: "compute_quadruple_roots m n ps = Inr (2 ^ K, K, psF)"
    and "compute m n ps = Inr (reference_sum n)"
    by (simp_all add: compute_def compute_quadruple_roots_def)
  with p l show ?thesis by auto
qed

text \<open>
  Claim C6, amended. For every thread count \<open>m\<close> with \<open>m \<le> 2^30\<close> and every upper bound
  \<open>n \<ge> 1\<close> with \<open>n < m\<close>, the computation does not crash: phase 1 and the reduction both
  return without a fault (no overflow, no access outside the array), every worker but
  the last has the empty range \<open>[1, 0]\<close>, its loop runs zero times and it stores exactly
  \<open>0\<close> in its own slot, and the last worker sums \<open>[1, n]\<close>.
\<close>

theorem empty_ranges:
  assumes "1 \<le> n" "n < m" "m \<le> 2 ^ 30" "length ps = nat m"
  shows "(\<exists>ps'. phase1 m n ps = Inr ps' \<and> length ps' = nat m
     \<and> (\<forall>tid\<in>{0..<m - 1}. work_range tid m n = Inr (1, 0) \<and> sum_loop 1 0 0 = Inr 0
           \<and> phase1_thread m n tid ps = Inr (ps[nat tid := 0]) \<and> ps' ! nat tid = 0)
     \<and> work_range (m - 1) m n = Inr (1, n) \<and> ps' ! nat (m - 1) = reference_sum n)
   \<and> (\<exists>step rounds ps2. compute_quadruple_roots m n ps = Inr (step, rounds, ps2))
   \<and> (\<exists>r. compute m n ps = Inr r)"
proof -
  from assms have m: "1 \<le> m" "m \<le> INT_MAX" and n: "n < INT_MAX"
    by (simp_all add: INT_MAX_def)
  note first = idle_workers_phase1 [OF assms(1,2) m(2) assms(4)]
  from compute_exact [OF m(1) assms(3,1) n assms(4)]
  have "\<exists>step rounds ps2. compute_quadruple_roots m n ps = Inr (step, rounds, ps2)"
    and "\<exists>r. compute m n ps = Inr r"
    by blast+
  with first show ?thesis by blast
qed

theorem empty_ranges_witness:
  "phase1 3 1 [7, 7, 7] = Inr [0, 0, 1] \<and> work_range 0 3 1 = Inr (1, 0)
     \<and> work_range 1 3 1 = Inr (1, 0) \<and> work_range 2 3 1 = Inr (1, 1)
     \<and> compute_quadruple_roots 3 1 [7, 7, 7] = Inr (4, 2, [1, 0, 1])
     \<and> compute 3 1 [7, 7, 7] = Inr 1"
proof -
  have h: "(1::int) \<le> 1" "(1::int) < 3" "(3::int) \<le> 2 ^ 30" "length [7, 7, 7 :: real] = nat 3"
    by simp_all
  from empty_ranges [OF h] obtain ps' where
    p: "phase1 3 1 [7, 7, 7] = Inr ps'" "length ps' = nat 3"
      "\<forall>tid\<in>{0..<3 - 1}. work_range tid 3 1 = Inr (1, 0) \<and> ps' ! nat tid = 0"
      "work_range (3 - 1) 3 1 = Inr (1, 1)" "ps' ! nat (3 - 1) = reference_sum 1"
    by blast
  from p(3) [THEN bspec, of 0] have a: "work_range 0 3 1 = Inr (1, 0)" "ps' ! 0 = 0"
    by simp_all
  from p(3) [THEN bspec, of 1] have b: "work_range 1 3 1 = Inr (1, 0)" "ps' ! 1 = 0"
    by simp_all
  from p(5) have c: "ps' ! 2 = 1"
    by (simp add: reference_sum_def pow_quarter_def)
  from p(2) obtain x y z where "ps' = [x, y, z]"
    by (auto simp: numeral_3_eq_3 length_Suc_conv)
  with a b c have "ps' = [0, 0, 1]" by simp
  with p(1) have ph: "phase1 3 1 [7, 7, 7] = Inr [0, 0, 1]" by simp
  note ev = reduction_round_def thread_ids_def upto_rec1 reduce_thread_def in_int_def
    INT_MIN_def INT_MAX_def c_mod_def load_def store_def
  have r1: "reduction_round 3 (1, 0, [0, 0, 1]) = Inr (2, Suc 0, [0, 0, 1])"
    by (simp add: ev)
  have r2: "reduction_round 3 (2, Suc 0, [0, 0, 1]) = Inr (4, 2, [1, 0, 1])"
    by (simp add: ev)
  have q: "compute_quadruple_roots 3 1 [7, 7, 7] = Inr (4, 2, [1, 0, 1])"
    by (simp add: compute_quadruple_roots_def ph r1 r2)
  then have "compute 3 1 [7, 7, 7] = Inr 1"
    by (simp add: compute_def load_def)
  with ph q p(4) a b show ?thesis by simp
qed

theorem empty_ranges_counterexample:
  "compute 1073741825 1 (replicate 1073741825 0) = Inl SignedOverflow"
proof -
  have h: "(1::int) \<le> 1073741825" "(1073741825::int) \<le> INT_MAX" "(1::int) \<le> 1"
    "(1::int) < INT_MAX"
    by (simp_all add: INT_MAX_def)
  have l: "length (replicate 1073741825 (0::real)) = nat 1073741825"
    by (simp only: length_replicate nat_numeral)
  from phase1_total [OF h l] obtain ps1 where
    p: "phase1 1073741825 1 (replicate 1073741825 0) = Inr ps1"
      "length ps1 = nat 1073741825"
    by blast
  have b: "(2::int) ^ 30 < 1073741825" "(1073741825::int) \<le> 2 ^ 30 + 2 ^ 29" "(0::nat) \<le> 30"
    by simp_all
  from loop_overflow [OF b p(2), of 0]
  have "reduction_loop 1073741825 (1, 0, ps1) = Inl SignedOverflow"
    by (simp only: power_0)
  with p(1) show ?thesis
    by (simp only: compute_def compute_quadruple_roots_def sum.case)
qed

text \<open>
  Claim C9 fails at the largest \<^verbatim>\<open>int\<close>. With one thread the range is \<open>[1, n]\<close> and no round
  is executed, but for \<open>n = INT_MAX\<close> the test \<^verbatim>\<open>i <= end\<close> of line 42 never fails and the
  increment of \<open>i = INT_MAX\<close> overflows: the computation has no result.
\<close>

theorem single_worker_overflow:
  "INT_MAX = 2147483647 \<and> work_range 0 1 2147483647 = Inr (1, 2147483647)
     \<and> compute 1 2147483647 [0] = Inl SignedOverflow"
proof -
  have w: "work_range 0 1 2147483647 = Inr (1, 2147483647)"
    by (simp add: work_range_def c_div_def in_int_def INT_MIN_def INT_MAX_def)
  have "sum_loop 1 2147483647 0 = Inl SignedOverflow"
    by (rule sum_loop_overflow) (simp_all add: INT_MAX_def)
  with w have "phase1 1 2147483647 [0] = Inl SignedOverflow"
    by (simp add: phase1_def thread_ids_def phase1_thread_def)
  then show ?thesis using w
    by (simp add: compute_def compute_quadruple_roots_def INT_MAX_def)
qed

text \<open>
  Below the largest \<^verbatim>\<open>int\<close> the single worker sums \<open>[1, n]\<close>, no round is executed and
  the result is the reference sum.
\<close>

lemma single_worker:
  assumes "1 \<le> n" "n < INT_MAX"
  shows "work_range 0 1 n = Inr (1, n)
     \<and> compute_quadruple_roots 1 n [x] = Inr (1, 0, [reference_sum n])
     \<and> compute 1 n [x] = Inr (reference_sum n)"
proof -
  have one: "(1::int) \<le> 1" "(1::int) \<le> INT_MAX" "(0::int) \<le> 0" "(0::int) < 1"
    by (simp_all add: INT_MAX_def)
  from assms have n: "n \<le> INT_MAX" by simp
  have w: "work_range 0 1 n = Inr (1, n)"
    using work_range_value [OF one(1) assms(1) n one(2,3,4)] by simp
  then have s: "slice 0 1 n = {1..n}" by (simp add: slice_def)
  have "phase1_thread 1 n 0 [x] = Inr [reference_sum n]"
    using phase1_thread_value [OF one(1) assms one(2,3,4), of "[x]"] s
    by (simp add: reference_sum_def)
  then have "phase1 1 n [x] = Inr [reference_sum n]"
    by (simp add: phase1_def thread_ids_def)
  then show ?thesis using w
    by (simp add: compute_def compute_quadruple_roots_def load_def)
qed

end
